theory Spec2Isabelle
  imports Main
begin

section \<open>The Latin square game of latinsquare.c\<close>

text \<open>
  The program keeps the board in \<^verbatim>\<open>int latinSquare[N][N]\<close> with \<^verbatim>\<open>N = 9\<close>; only the
  upper left \<open>size \<times> size\<close> block is played. A cell holding \<open>0\<close> is empty, a negative
  cell is a given of the puzzle (\<^verbatim>\<open>displayLatinSquare\<close> prints it in parentheses), a positive
  cell was entered by the player.

  The array is a list of rows. C \<^verbatim>\<open>int\<close> values are modelled as \<open>int\<close>: the program only
  compares cells with \<open>0\<close> and with a command value that lies in \<open>[0, size]\<close>, and
  subtracts one from coordinates already checked to be at least one, so no arithmetic of the
  program can overflow on its way. Local flags that only hold 0 or 1 are \<open>bool\<close>. The
  parameter \<^verbatim>\<open>size\<close> is written \<open>sz\<close>.
\<close>

type_synonym grid = "int list list"

definition N :: int where
  "N = 9"

definition cell :: "grid \<Rightarrow> int \<Rightarrow> int \<Rightarrow> int" where
  \<comment> \<open>the read \<^verbatim>\<open>arr[i][j]\<close>\<close>
  "cell arr i j = arr ! nat i ! nat j"

definition store :: "grid \<Rightarrow> int \<Rightarrow> int \<Rightarrow> int \<Rightarrow> grid" where
  \<comment> \<open>the assignment \<^verbatim>\<open>arr[i][j] = v\<close>\<close>
  "store arr i j v = arr[nat i := (arr ! nat i)[nat j := v]]"

definition wf_grid :: "grid \<Rightarrow> bool" where
  \<comment> \<open>the shape of an \<^verbatim>\<open>int [N][N]\<close>\<close>
  "wf_grid arr \<longleftrightarrow> int (length arr) = N \<and> list_all (\<lambda>row. int (length row) = N) arr"

subsection \<open>play: the two scans for a duplicate (lines 191-220)\<close>

text \<open>
  Both loops run \<open>t\<close> from \<open>0\<close> to \<open>size - 1\<close>, skip empty cells, and set
  \<^verbatim>\<open>areRulesBroken\<close> and leave the loop when the absolute value of a cell equals \<open>val\<close>.
  The flag is threaded through: the column loop starts from what the row loop left.
\<close>

function row_scan :: "grid \<Rightarrow> int \<Rightarrow> int \<Rightarrow> int \<Rightarrow> int \<Rightarrow> bool \<Rightarrow> bool" where
  "row_scan arr sz i val t areRulesBroken =
     (if t < sz then
        (if cell arr (i - 1) t = 0 then row_scan arr sz i val (t + 1) areRulesBroken
         else if \<bar>cell arr (i - 1) t\<bar> = val then True
         else row_scan arr sz i val (t + 1) areRulesBroken)
      else areRulesBroken)"
  by pat_completeness auto
termination
  by (relation "measure (\<lambda>(arr, sz, i, val, t, b). nat (sz - t))") auto

function col_scan :: "grid \<Rightarrow> int \<Rightarrow> int \<Rightarrow> int \<Rightarrow> int \<Rightarrow> bool \<Rightarrow> bool" where
  "col_scan arr sz j val t areRulesBroken =
     (if t < sz then
        (if cell arr t (j - 1) = 0 then col_scan arr sz j val (t + 1) areRulesBroken
         else if \<bar>cell arr t (j - 1)\<bar> = val then True
         else col_scan arr sz j val (t + 1) areRulesBroken)
      else areRulesBroken)"
  by pat_completeness auto
termination
  by (relation "measure (\<lambda>(arr, sz, j, val, t, b). nat (sz - t))") auto

declare row_scan.simps [simp del] col_scan.simps [simp del]

subsection \<open>play: the winning condition (lines 241-255)\<close>

text \<open>
  The outer loop leaves as soon as the flag is down; the inner loop lowers it at the first
  empty cell of row \<open>i\<close>.
\<close>

function won_row :: "grid \<Rightarrow> int \<Rightarrow> int \<Rightarrow> int \<Rightarrow> bool \<Rightarrow> bool" where
  "won_row arr sz i j isGameWon =
     (if j < sz then
        (if cell arr i j = 0 then False
         else won_row arr sz i (j + 1) isGameWon)
      else isGameWon)"
  by pat_completeness auto
termination
  by (relation "measure (\<lambda>(arr, sz, i, j, b). nat (sz - j))") auto

function won_rows :: "grid \<Rightarrow> int \<Rightarrow> int \<Rightarrow> bool \<Rightarrow> bool" where
  "won_rows arr sz i isGameWon =
     (if i < sz then
        (if \<not> isGameWon then isGameWon
         else won_rows arr sz (i + 1) (won_row arr sz i 0 isGameWon))
      else isGameWon)"
  by pat_completeness auto
termination
  by (relation "measure (\<lambda>(arr, sz, i, b). nat (sz - i))") auto

declare won_row.simps [simp del] won_rows.simps [simp del]

definition isGameWon :: "grid \<Rightarrow> int \<Rightarrow> bool" where
  "isGameWon arr sz = won_rows arr sz 0 True"

subsection \<open>play: one command (lines 127-239)\<close>

text \<open>
  One call of \<^verbatim>\<open>play\<close> reads one command with \<^verbatim>\<open>scanf("%d,%d=%d")\<close>. The input is
  \<open>None\<close> when \<^verbatim>\<open>scanf\<close> did not deliver three integers. The outcome names the
  \<^verbatim>\<open>printf\<close> the call reaches (or the quit command), and comes with the array as the call
  leaves it:
  \<^item> \<open>WrongFormat\<close> line 133, \<open>OutOfRange\<close> line 151, \<open>IllegalClear\<close> line 165,
    \<open>CellOccupied\<close> line 184, \<open>IllegalInsertion\<close> line 225: the five error messages;
  \<^item> \<open>SaveAndQuit\<close>: the command \<^verbatim>\<open>0,0=0\<close>, line 142;
  \<^item> \<open>ValueCleared\<close>: "Value Cleared!" of line 177, after a positive cell was zeroed;
  \<^item> \<open>StoredCleared\<close> and \<open>StoredInserted\<close>: "Value Cleared!" of line 234 and
    "Value Inserted!" of line 238, after the assignment of line 231.
\<close>

datatype outcome =
    WrongFormat | SaveAndQuit | OutOfRange | IllegalClear | ValueCleared | CellOccupied
  | IllegalInsertion | StoredCleared | StoredInserted

type_synonym command = "int \<times> int \<times> int"

definition check_and_store :: "grid \<Rightarrow> int \<Rightarrow> int \<Rightarrow> int \<Rightarrow> int \<Rightarrow> outcome \<times> grid" where
  \<comment> \<open>lines 191-239, reached when no branch of lines 157-189 returned\<close>
  "check_and_store arr sz i j val =
     (let areRulesBroken = col_scan arr sz j val 0 (row_scan arr sz i val 0 False)
      in if areRulesBroken then (IllegalInsertion, arr)
         else (if val = 0 then StoredCleared else StoredInserted,
               store arr (i - 1) (j - 1) val))"

definition play_step :: "grid \<Rightarrow> int \<Rightarrow> command option \<Rightarrow> outcome \<times> grid" where
  "play_step arr sz inp =
     (case inp of
        None \<Rightarrow> (WrongFormat, arr)
      | Some (i, j, val) \<Rightarrow>
          if i = 0 \<and> j = 0 \<and> val = 0 then (SaveAndQuit, arr)
          else if (i < 1 \<or> i > sz) \<or> (j < 1 \<or> j > sz) \<or> (val < 0 \<or> val > sz)
            then (OutOfRange, arr)
          else if cell arr (i - 1) (j - 1) \<noteq> 0 then
            (if cell arr (i - 1) (j - 1) < 0 then
               (if val = 0 then (IllegalClear, arr)
                else check_and_store arr sz i j val)
             else
               (if val = 0 then (ValueCleared, store arr (i - 1) (j - 1) 0)
                else (CellOccupied, arr)))
          else check_and_store arr sz i j val)"

definition is_error :: "outcome \<Rightarrow> bool" where
  \<comment> \<open>the outcomes that print a line starting with "Error:"\<close>
  "is_error r \<longleftrightarrow> r \<in> {WrongFormat, OutOfRange, IllegalClear, CellOccupied, IllegalInsertion}"

subsection \<open>writeLatinSquare, displayLatinSquare and the loop of play\<close>

text \<open>
  What the program prints and writes is a list of events. A file, read or written, is the
  list of its integers: the side first, then the cells row by row. \<open>canWrite\<close> says whether
  \<^verbatim>\<open>fopen(fileNameOut, "w")\<close> succeeds.
\<close>

datatype event =
    Display "int list list"   \<comment> \<open>displayLatinSquare: the \<open>size \<times> size\<close> block\<close>
  | Instructions              \<comment> \<open>displayInstructionDialogue\<close>
  | Says outcome              \<comment> \<open>the message of an outcome\<close>
  | GameCompleted             \<comment> \<open>"Game completed!!!"\<close>
  | UnableToSave              \<comment> \<open>"Error : Unable to generate file ..."\<close>
  | FileWritten "int list"    \<comment> \<open>the contents of the output file, then "Saving to ... Done"\<close>
  | Usage                     \<comment> \<open>main: no file name given\<close>
  | ReadFailed                \<comment> \<open>main: "Error: Something went wrong while reading the file"\<close>

definition block :: "grid \<Rightarrow> int \<Rightarrow> int list list" where
  "block arr sz = map (\<lambda>i. map (\<lambda>j. cell arr (int i) (int j)) [0..<nat sz]) [0..<nat sz]"

definition displayLatinSquare :: "grid \<Rightarrow> int \<Rightarrow> event list" where
  "displayLatinSquare arr sz = [Display (block arr sz)]"

definition writeLatinSquare :: "grid \<Rightarrow> int \<Rightarrow> bool \<Rightarrow> event list" where
  "writeLatinSquare arr sz canWrite =
     (if \<not> canWrite then [UnableToSave]
      else [FileWritten (sz # concat (block arr sz))])"

definition emit :: "event list \<Rightarrow> (event list \<times> grid) option \<Rightarrow> (event list \<times> grid) option" where
  \<comment> \<open>the events printed before a recursive call come before the events of that call\<close>
  "emit es r = map_option (\<lambda>(es', arr). (es @ es', arr)) r"

text \<open>
  \<^verbatim>\<open>play\<close> calls itself to read the next command. The commands still to come are a list,
  one entry per \<^verbatim>\<open>scanf\<close>. At the end of the input \<^verbatim>\<open>scanf\<close> returns \<^verbatim>\<open>EOF\<close> and
  the loop \<^verbatim>\<open>while (getchar() != '\n')\<close> never ends: the call does not return, which is the
  result \<open>None\<close>. A call that returns gives its events and the final array.
\<close>

fun play :: "grid \<Rightarrow> int \<Rightarrow> int \<Rightarrow> bool \<Rightarrow> command option list \<Rightarrow> (event list \<times> grid) option" where
  "play arr sz isDispNeeded canWrite [] = None"
| "play arr sz isDispNeeded canWrite (inp # rest) =
     (let shown = (if isDispNeeded = 1 then displayLatinSquare arr sz @ [Instructions] else [])
      in case play_step arr sz inp of
           (SaveAndQuit, arr') \<Rightarrow> Some (shown @ writeLatinSquare arr' sz canWrite, arr')
         | (StoredCleared, arr') \<Rightarrow>
             if isGameWon arr' sz
             then Some (shown @ [Says StoredCleared, GameCompleted] @ displayLatinSquare arr' sz
                          @ writeLatinSquare arr' sz canWrite, arr')
             else emit (shown @ [Says StoredCleared]) (play arr' sz 1 canWrite rest)
         | (StoredInserted, arr') \<Rightarrow>
             if isGameWon arr' sz
             then Some (shown @ [Says StoredInserted, GameCompleted] @ displayLatinSquare arr' sz
                          @ writeLatinSquare arr' sz canWrite, arr')
             else emit (shown @ [Says StoredInserted]) (play arr' sz 1 canWrite rest)
         | (ValueCleared, arr') \<Rightarrow> emit (shown @ [Says ValueCleared]) (play arr' sz 1 canWrite rest)
         | (err, arr') \<Rightarrow> emit (shown @ [Says err]) (play arr' sz 0 canWrite rest))"

subsection \<open>readLatinSquare and main\<close>

text \<open>
  The input file is \<open>None\<close> when it cannot be opened, and otherwise the integers that
  \<^verbatim>\<open>fscanf(fp, "%d", ...)\<close> reads one after the other before it first fails (at the end of
  the file or at text that is no integer). The array is an out-parameter: the function returns
  its result (the side, or \<open>-1\<close>) and the array as it leaves it.
\<close>

definition zeroed :: grid where
  \<comment> \<open>lines 300-306: every cell of the \<open>N \<times> N\<close> array set to zero\<close>
  "zeroed = replicate (nat N) (replicate (nat N) 0)"

function read_row :: "int \<Rightarrow> int \<Rightarrow> int \<Rightarrow> grid \<Rightarrow> int list \<Rightarrow> bool \<times> grid \<times> int list" where
  "read_row n i j latinSquare fp =
     (if j < n then
        (case fp of
           [] \<Rightarrow> (False, latinSquare, fp)
         | v # fp' \<Rightarrow> read_row n i (j + 1) (store latinSquare i j v) fp')
      else (True, latinSquare, fp))"
  by pat_completeness auto
termination
  by (relation "measure (\<lambda>(n, i, j, sq, fp). nat (n - j))") auto

function read_rows :: "int \<Rightarrow> int \<Rightarrow> grid \<Rightarrow> int list \<Rightarrow> bool \<times> grid" where
  "read_rows n i latinSquare fp =
     (if i < n then
        (case read_row n i 0 latinSquare fp of
           (ok, latinSquare', fp') \<Rightarrow>
             if ok then read_rows n (i + 1) latinSquare' fp' else (False, latinSquare'))
      else (True, latinSquare))"
  by pat_completeness auto
termination
  by (relation "measure (\<lambda>(n, i, sq, fp). nat (n - i))") auto

declare read_row.simps [simp del] read_rows.simps [simp del]

definition readLatinSquare :: "int list option \<Rightarrow> grid \<Rightarrow> int \<times> grid" where
  "readLatinSquare file latinSquare =
     (case file of
        None \<Rightarrow> (- 1, latinSquare)
      | Some [] \<Rightarrow> (- 1, latinSquare)
      | Some (n # fp) \<Rightarrow>
          if n \<le> 0 \<or> n > N then (- 1, latinSquare)
          else (case read_rows n 0 zeroed fp of
                  (ok, latinSquare') \<Rightarrow> if ok then (n, latinSquare') else (- 1, latinSquare')))"

text \<open>
  \<^verbatim>\<open>main\<close>: \<open>argv1\<close> is \<open>None\<close> when no file name was given, and otherwise the input file.
  The result is the exit code with the events of the run, or \<open>None\<close> when \<^verbatim>\<open>play\<close> does
  not return.
\<close>

definition main :: "int list option option \<Rightarrow> bool \<Rightarrow> command option list \<Rightarrow> (int \<times> event list) option" where
  "main argv1 canWrite stdin =
     (case argv1 of
        None \<Rightarrow> Some (1, [Usage])
      | Some file \<Rightarrow>
          (case readLatinSquare file zeroed of
             (n, latinSquare) \<Rightarrow>
               if n = - 1 then Some (0, [ReadFailed])
               else map_option (\<lambda>(es, arr). (0, es)) (play latinSquare n 1 canWrite stdin)))"

subsection \<open>The invariant of the specification\<close>

text \<open>
  The specification asks that in every row and every column of the \<open>size \<times> size\<close> block
  the values of the cells that are not empty, compared by absolute value (a given and a
  player's value count alike), hold no value twice.
\<close>

definition distinct_values :: "int list \<Rightarrow> bool" where
  "distinct_values vs = distinct (map abs (filter (\<lambda>v. v \<noteq> 0) vs))"

definition row_values :: "grid \<Rightarrow> int \<Rightarrow> nat \<Rightarrow> int list" where
  "row_values arr sz r = map (\<lambda>c. cell arr (int r) (int c)) [0..<nat sz]"

definition col_values :: "grid \<Rightarrow> int \<Rightarrow> nat \<Rightarrow> int list" where
  "col_values arr sz c = map (\<lambda>r. cell arr (int r) (int c)) [0..<nat sz]"

definition no_duplicates :: "grid \<Rightarrow> int \<Rightarrow> bool" where
  "no_duplicates arr sz \<longleftrightarrow>
     list_all (\<lambda>r. distinct_values (row_values arr sz r)) [0..<nat sz] \<and>
     list_all (\<lambda>c. distinct_values (col_values arr sz c)) [0..<nat sz]"

section \<open>The loops, characterised\<close>

lemma ex_from_split:
  fixes t sz :: int
  assumes "t < sz"
  shows "(\<exists>u. t \<le> u \<and> u < sz \<and> P u) \<longleftrightarrow> P t \<or> (\<exists>u. t + 1 \<le> u \<and> u < sz \<and> P u)"
proof -
  have "\<And>u. t \<le> u \<longleftrightarrow> u = t \<or> t + 1 \<le> u" by auto
  with assms show ?thesis by auto
qed

lemma all_from_split:
  fixes t sz :: int
  assumes "t < sz"
  shows "(\<forall>u. t \<le> u \<and> u < sz \<longrightarrow> P u) \<longleftrightarrow> P t \<and> (\<forall>u. t + 1 \<le> u \<and> u < sz \<longrightarrow> P u)"
proof -
  have "\<And>u. t \<le> u \<longleftrightarrow> u = t \<or> t + 1 \<le> u" by auto
  with assms show ?thesis by auto
qed

lemma row_scan_iff:
  "row_scan arr sz i val t b \<longleftrightarrow>
     b \<or> (\<exists>u. t \<le> u \<and> u < sz \<and> cell arr (i - 1) u \<noteq> 0 \<and> \<bar>cell arr (i - 1) u\<bar> = val)"
proof (induction arr sz i val t b rule: row_scan.induct)
  case (1 arr sz i val t b)
  show ?case
  proof (cases "t < sz")
    case False
    then show ?thesis by (subst row_scan.simps) auto
  next
    case True
    show ?thesis
      using True "1.IH"
      by (subst row_scan.simps, subst ex_from_split [OF True]) auto
  qed
qed

lemma col_scan_iff:
  "col_scan arr sz j val t b \<longleftrightarrow>
     b \<or> (\<exists>u. t \<le> u \<and> u < sz \<and> cell arr u (j - 1) \<noteq> 0 \<and> \<bar>cell arr u (j - 1)\<bar> = val)"
proof (induction arr sz j val t b rule: col_scan.induct)
  case (1 arr sz j val t b)
  show ?case
  proof (cases "t < sz")
    case False
    then show ?thesis by (subst col_scan.simps) auto
  next
    case True
    show ?thesis
      using True "1.IH"
      by (subst col_scan.simps, subst ex_from_split [OF True]) auto
  qed
qed

lemma won_row_iff:
  "won_row arr sz i j b \<longleftrightarrow> b \<and> (\<forall>c. j \<le> c \<and> c < sz \<longrightarrow> cell arr i c \<noteq> 0)"
proof (induction arr sz i j b rule: won_row.induct)
  case (1 arr sz i j b)
  show ?case
  proof (cases "j < sz")
    case False
    then show ?thesis by (subst won_row.simps) auto
  next
    case True
    show ?thesis
      using True "1.IH"
      by (subst won_row.simps, subst all_from_split [OF True]) auto
  qed
qed

lemma won_rows_iff:
  "won_rows arr sz i b \<longleftrightarrow>
     b \<and> (\<forall>r. i \<le> r \<and> r < sz \<longrightarrow> (\<forall>c. 0 \<le> c \<and> c < sz \<longrightarrow> cell arr r c \<noteq> 0))"
proof (induction arr sz i b rule: won_rows.induct)
  case (1 arr sz i b)
  show ?case
  proof (cases "i < sz")
    case False
    then show ?thesis by (subst won_rows.simps) auto
  next
    case True
    show ?thesis
    proof (cases b)
      case False
      then show ?thesis using True by (subst won_rows.simps) simp
    next
      case b: True
      have "won_rows arr sz i b = won_rows arr sz (i + 1) (won_row arr sz i 0 b)"
        using True b by (subst won_rows.simps) simp
      also have "\<dots> \<longleftrightarrow> won_row arr sz i 0 b \<and>
          (\<forall>r. i + 1 \<le> r \<and> r < sz \<longrightarrow> (\<forall>c. 0 \<le> c \<and> c < sz \<longrightarrow> cell arr r c \<noteq> 0))"
        using "1.IH" True b by simp
      finally show ?thesis
        by (subst all_from_split [OF True]) (simp add: won_row_iff b)
    qed
  qed
qed

lemma isGameWon_iff:
  "isGameWon arr sz \<longleftrightarrow> (\<forall>r c. 0 \<le> r \<and> r < sz \<and> 0 \<le> c \<and> c < sz \<longrightarrow> cell arr r c \<noteq> 0)"
  by (auto simp: isGameWon_def won_rows_iff)

lemmas eval_defs =
  play_step_def check_and_store_def row_scan.simps col_scan.simps won_rows.simps won_row.simps
  isGameWon_def cell_def store_def zeroed_def N_def is_error_def emit_def
  displayLatinSquare_def writeLatinSquare_def block_def

section \<open>Rejected commands\<close>

text \<open>
  Claim C9. A command that \<^verbatim>\<open>play\<close> answers with one of its five error messages (wrong
  format, out of range, illegal clear, cell occupied, illegal insertion) leaves the array as
  it was: the outcome comes with the unchanged array, and \<^verbatim>\<open>play\<close> goes on to the next
  command with that same array, without displaying it again.
\<close>

theorem rejected_command_leaves_grid:
  assumes "play_step arr sz inp = (r, arr')" and "is_error r"
  shows "arr' = arr \<and>
         play arr sz d canWrite (inp # rest) =
           emit ((if d = 1 then displayLatinSquare arr sz @ [Instructions] else []) @ [Says r])
                (play arr sz 0 canWrite rest)"
proof -
  have same: "arr' = arr"
    using assms
    by (auto simp: play_step_def check_and_store_def is_error_def Let_def
             split: option.splits prod.splits if_splits)
  have "play arr sz d canWrite (inp # rest) =
          emit ((if d = 1 then displayLatinSquare arr sz @ [Instructions] else []) @ [Says r])
               (play arr sz 0 canWrite rest)"
    using assms(2) assms(1) [unfolded same]
    by (cases r) (simp_all add: is_error_def)
  with same show ?thesis by simp
qed

theorem rejected_command_leaves_grid_witness:
  "play_step zeroed 2 (Some (3, 1, 1)) = (OutOfRange, zeroed) \<and> is_error OutOfRange \<and>
   play zeroed 2 0 True [Some (3, 1, 1), Some (0, 0, 0)] =
     emit [Says OutOfRange] (play zeroed 2 0 True [Some (0, 0, 0)])"
proof -
  have s: "play_step zeroed 2 (Some (3, 1, 1)) = (OutOfRange, zeroed)"
    by (simp add: play_step_def)
  have e: "is_error OutOfRange"
    by (simp add: is_error_def)
  from rejected_command_leaves_grid [OF s e, of 0 True "[Some (0, 0, 0)]"] s e
  show ?thesis by simp
qed

section \<open>The winning condition\<close>

text \<open>
  Claim C3. The winning condition computed by the loops of lines 241-255 holds exactly when
  no cell of the \<open>size \<times> size\<close> block is empty. After a value was inserted (line 231,
  "Value Inserted!") \<^verbatim>\<open>play\<close> evaluates it on the new array. When no cell of the block
  is empty, the call prints "Game completed!!!", displays the new array, writes the side and
  the cells of the block of the new array, row by row, to the output file, and returns without
  reading another command (when the output file cannot be opened it prints the error of
  \<^verbatim>\<open>writeLatinSquare\<close> instead of writing, and returns all the same). When some cell of
  the block is empty, the call goes on with the next command, and does not return when there
  is none.
\<close>

theorem win_check_after_fill:
  "(isGameWon g sz \<longleftrightarrow>
      (\<forall>r c. 0 \<le> r \<and> r < sz \<and> 0 \<le> c \<and> c < sz \<longrightarrow> cell g r c \<noteq> 0)) \<and>
   (length (block g sz) = nat sz \<and>
      (\<forall>r c. r < nat sz \<and> c < nat sz \<longrightarrow> block g sz ! r ! c = cell g (int r) (int c))) \<and>
   (play_step arr sz inp = (StoredInserted, arr') \<longrightarrow>
      ((\<forall>r c. 0 \<le> r \<and> r < sz \<and> 0 \<le> c \<and> c < sz \<longrightarrow> cell arr' r c \<noteq> 0) \<longrightarrow>
         play arr sz d canWrite (inp # rest) =
           Some ((if d = 1 then [Display (block arr sz), Instructions] else [])
                   @ [Says StoredInserted, GameCompleted, Display (block arr' sz),
                      if canWrite then FileWritten (sz # concat (block arr' sz))
                      else UnableToSave],
                 arr')) \<and>
      ((\<exists>r c. 0 \<le> r \<and> r < sz \<and> 0 \<le> c \<and> c < sz \<and> cell arr' r c = 0) \<longrightarrow>
         play arr sz d canWrite (inp # rest) =
           emit ((if d = 1 then [Display (block arr sz), Instructions] else [])
                   @ [Says StoredInserted])
                (play arr' sz 1 canWrite rest) \<and>
         play arr sz d canWrite [inp] = None))"
proof (intro conjI impI)
  show "isGameWon g sz \<longleftrightarrow>
      (\<forall>r c. 0 \<le> r \<and> r < sz \<and> 0 \<le> c \<and> c < sz \<longrightarrow> cell g r c \<noteq> 0)"
    by (rule isGameWon_iff)
  show "length (block g sz) = nat sz"
    by (simp add: block_def)
  show "\<forall>r c. r < nat sz \<and> c < nat sz \<longrightarrow> block g sz ! r ! c = cell g (int r) (int c)"
    by (simp add: block_def)
next
  assume s: "play_step arr sz inp = (StoredInserted, arr')"
    and full: "\<forall>r c. 0 \<le> r \<and> r < sz \<and> 0 \<le> c \<and> c < sz \<longrightarrow> cell arr' r c \<noteq> 0"
  from full have "isGameWon arr' sz" by (simp add: isGameWon_iff)
  with s show "play arr sz d canWrite (inp # rest) =
           Some ((if d = 1 then [Display (block arr sz), Instructions] else [])
                   @ [Says StoredInserted, GameCompleted, Display (block arr' sz),
                      if canWrite then FileWritten (sz # concat (block arr' sz))
                      else UnableToSave],
                 arr')"
    by (simp add: displayLatinSquare_def writeLatinSquare_def)
next
  assume s: "play_step arr sz inp = (StoredInserted, arr')"
    and hole: "\<exists>r c. 0 \<le> r \<and> r < sz \<and> 0 \<le> c \<and> c < sz \<and> cell arr' r c = 0"
  from hole have n: "\<not> isGameWon arr' sz" by (auto simp: isGameWon_iff)
  with s show "play arr sz d canWrite (inp # rest) =
           emit ((if d = 1 then [Display (block arr sz), Instructions] else [])
                   @ [Says StoredInserted])
                (play arr' sz 1 canWrite rest)"
    by (simp add: displayLatinSquare_def)
  from s n show "play arr sz d canWrite [inp] = None"
    by (simp add: emit_def)
qed

theorem win_check_after_fill_witness:
  "play_step (store (store (store zeroed 0 0 (- 1)) 0 1 2) 1 0 2) 2 (Some (2, 2, 1)) =
     (StoredInserted, store (store (store (store zeroed 0 0 (- 1)) 0 1 2) 1 0 2) 1 1 1) \<and>
   isGameWon (store (store (store (store zeroed 0 0 (- 1)) 0 1 2) 1 0 2) 1 1 1) 2 \<and>
   play (store (store (store zeroed 0 0 (- 1)) 0 1 2) 1 0 2) 2 0 True [Some (2, 2, 1), None] =
     Some ([Says StoredInserted, GameCompleted, Display [[- 1, 2], [2, 1]],
            FileWritten [2, - 1, 2, 2, 1]],
           store (store (store (store zeroed 0 0 (- 1)) 0 1 2) 1 0 2) 1 1 1) \<and>
   play_step zeroed 2 (Some (1, 1, 1)) = (StoredInserted, store zeroed 0 0 1) \<and>
   \<not> isGameWon (store zeroed 0 0 1) 2 \<and>
   play zeroed 2 0 True [Some (1, 1, 1)] = None"
proof -
  let ?a = "store (store (store zeroed 0 0 (- 1)) 0 1 2) 1 0 2"
  let ?a' = "store ?a 1 1 1"
  have s: "play_step ?a 2 (Some (2, 2, 1)) = (StoredInserted, ?a')"
    by (simp add: eval_defs)
  have w: "isGameWon ?a' 2"
    by (simp add: eval_defs)
  have b: "block ?a' 2 = [[- 1, 2], [2, 1]]"
    by (simp add: eval_defs upt_rec)
  have s0: "play_step zeroed 2 (Some (1, 1, 1)) = (StoredInserted, store zeroed 0 0 1)"
    by (simp add: eval_defs)
  have w0: "\<not> isGameWon (store zeroed 0 0 1) 2"
    by (simp add: eval_defs)
  have h0: "\<exists>r c. 0 \<le> r \<and> r < 2 \<and> 0 \<le> c \<and> c < 2 \<and> cell (store zeroed 0 0 1) r c = 0"
    by (intro exI [of _ 1]) (simp add: eval_defs)
  from win_check_after_fill [where g = ?a' and sz = 2 and arr = ?a
      and inp = "Some (2, 2, 1)" and arr' = ?a' and d = 0 and canWrite = True
      and rest = "[None]"] s w b
  have won: "play ?a 2 0 True [Some (2, 2, 1), None] =
     Some ([Says StoredInserted, GameCompleted, Display [[- 1, 2], [2, 1]],
            FileWritten [2, - 1, 2, 2, 1]], ?a')"
    by (simp del: play.simps)
  from win_check_after_fill [where g = zeroed and sz = 2 and arr = zeroed
      and inp = "Some (1, 1, 1)" and arr' = "store zeroed 0 0 1" and d = 0 and canWrite = True
      and rest = "[]", THEN conjunct2, THEN conjunct2, THEN mp, OF s0, THEN conjunct2,
      THEN mp, OF h0]
  have "play zeroed 2 0 True [Some (1, 1, 1)] = None"
    by (rule conjunct2)
  with s w won s0 w0 show ?thesis by (simp del: play.simps)
qed

section \<open>Reading and writing cells\<close>

lemma length_store [simp]: "length (store arr i j v) = length arr"
  by (simp add: store_def)

lemma length_store_row [simp]: "length (store arr i j v ! a) = length (arr ! a)"
proof (cases "a = nat i \<and> nat i < length arr")
  case True
  then show ?thesis by (simp add: store_def)
next
  case False
  then show ?thesis
    by (cases "a = nat i") (simp_all add: store_def list_update_beyond)
qed

lemma nth_store_other:
  "(a, b) \<noteq> (nat i, nat j) \<Longrightarrow> store arr i j v ! a ! b = arr ! a ! b"
proof (cases "a = nat i")
  case False
  then show ?thesis by (simp add: store_def)
next
  case True
  assume "(a, b) \<noteq> (nat i, nat j)"
  with True have b: "b \<noteq> nat j" by simp
  show ?thesis
  proof (cases "nat i < length arr")
    case True
    with \<open>a = nat i\<close> b show ?thesis by (simp add: store_def)
  next
    case False
    then show ?thesis by (simp add: store_def list_update_beyond)
  qed
qed

lemma wf_grid_store [simp]: "wf_grid arr \<Longrightarrow> wf_grid (store arr i j v)"
  by (auto simp: wf_grid_def list_all_length)

lemma cell_store_same:
  assumes "wf_grid arr" "0 \<le> i" "i < N" "0 \<le> j" "j < N"
  shows "cell (store arr i j v) i j = v"
proof -
  from assms have i: "nat i < length arr"
    by (simp add: wf_grid_def nat_less_iff)
  with assms have "int (length (arr ! nat i)) = N"
    by (simp add: wf_grid_def list_all_length)
  with assms have "nat j < length (arr ! nat i)"
    by (simp add: nat_less_iff)
  with i show ?thesis
    by (simp add: cell_def store_def)
qed

lemma cell_store_other:
  "0 \<le> i \<Longrightarrow> 0 \<le> j \<Longrightarrow> 0 \<le> a \<Longrightarrow> 0 \<le> b \<Longrightarrow> (a, b) \<noteq> (i, j) \<Longrightarrow>
     cell (store arr i j v) a b = cell arr a b"
  unfolding cell_def by (rule nth_store_other) auto

lemma store_store [simp]: "store (store arr i j v) i j w = store arr i j w"
proof (cases "nat i < length arr")
  case True
  then show ?thesis by (simp add: store_def)
next
  case False
  then show ?thesis by (simp add: store_def list_update_beyond)
qed

lemma store_same_value: "cell arr i j = v \<Longrightarrow> store arr i j v = arr"
  unfolding cell_def store_def by (metis list_update_id)

lemma play_step_stored:
  assumes "play_step arr sz inp = (r, arr')"
    and "r = ValueCleared \<or> r = StoredCleared \<or> r = StoredInserted"
  obtains i j val where "inp = Some (i, j, val)" "1 \<le> i" "i \<le> sz" "1 \<le> j" "j \<le> sz"
    "0 \<le> val" "val \<le> sz" "arr' = store arr (i - 1) (j - 1) val"
    "r = StoredInserted \<longleftrightarrow> val \<noteq> 0"
    "r = ValueCleared \<longleftrightarrow> 0 < cell arr (i - 1) (j - 1) \<and> val = 0"
    "r = StoredCleared \<longleftrightarrow> cell arr (i - 1) (j - 1) = 0 \<and> val = 0"
    "r \<noteq> ValueCleared \<Longrightarrow> \<not> col_scan arr sz j val 0 (row_scan arr sz i val 0 False)"
  using assms
  by (auto simp: play_step_def check_and_store_def Let_def
           split: option.splits prod.splits if_splits)

lemma wf_grid_zeroed: "wf_grid zeroed"
  by (simp add: wf_grid_def zeroed_def N_def list_all_length)

lemma scans_pass_zero: "\<not> col_scan arr sz j 0 0 (row_scan arr sz i 0 0 False)"
  by (simp add: col_scan_iff row_scan_iff)

section \<open>Commands that change the array\<close>

text \<open>
  Claim C10. When a command is applied, that is when \<^verbatim>\<open>play\<close> answers "Value Cleared!"
  (line 177 or line 234) or "Value Inserted!" (line 238), the array differs from the one
  before at most at position \<open>(i - 1, j - 1)\<close>: every other position of every row holds
  what it held, the array and its rows keep their lengths, and \<^verbatim>\<open>play\<close> goes on (or ends
  the game) with the same side \<open>sz\<close>.
\<close>

theorem applied_command_changes_one_cell:
  assumes "play_step arr sz (Some (i, j, val)) = (r, arr')"
    and "r = ValueCleared \<or> r = StoredCleared \<or> r = StoredInserted"
  shows "(\<forall>a b. (a, b) \<noteq> (nat (i - 1), nat (j - 1)) \<longrightarrow> arr' ! a ! b = arr ! a ! b) \<and>
         length arr' = length arr \<and> (\<forall>a. length (arr' ! a) = length (arr ! a)) \<and>
         play arr sz d canWrite (Some (i, j, val) # rest) =
           (let said = (if d = 1 then displayLatinSquare arr sz @ [Instructions] else []) @ [Says r]
            in if r \<noteq> ValueCleared \<and> isGameWon arr' sz
               then Some (said @ [GameCompleted] @ displayLatinSquare arr' sz
                            @ writeLatinSquare arr' sz canWrite, arr')
               else emit said (play arr' sz 1 canWrite rest))"
proof -
  from assms obtain i' j' val' where "Some (i, j, val) = Some (i', j', val')"
    and "arr' = store arr (i' - 1) (j' - 1) val'"
    by (rule play_step_stored)
  then have arr': "arr' = store arr (i - 1) (j - 1) val" by simp
  have frame: "\<forall>a b. (a, b) \<noteq> (nat (i - 1), nat (j - 1)) \<longrightarrow> arr' ! a ! b = arr ! a ! b"
    unfolding arr' by (blast intro: nth_store_other)
  have "play arr sz d canWrite (Some (i, j, val) # rest) =
           (let said = (if d = 1 then displayLatinSquare arr sz @ [Instructions] else []) @ [Says r]
            in if r \<noteq> ValueCleared \<and> isGameWon arr' sz
               then Some (said @ [GameCompleted] @ displayLatinSquare arr' sz
                            @ writeLatinSquare arr' sz canWrite, arr')
               else emit said (play arr' sz 1 canWrite rest))"
    using assms(2) assms(1) by (elim disjE) (simp_all add: Let_def)
  with frame show ?thesis by (simp add: arr')
qed

theorem applied_command_changes_one_cell_witness:
  "play_step zeroed 2 (Some (1, 2, 2)) = (StoredInserted, store zeroed 0 1 2) \<and>
   store zeroed 0 1 2 ! 0 ! 0 = zeroed ! 0 ! 0 \<and>
   length (store zeroed 0 1 2) = length zeroed \<and>
   play zeroed 2 0 True [Some (1, 2, 2), Some (0, 0, 0)] =
     Some ([Says StoredInserted, Display [[0, 2], [0, 0]], Instructions,
            FileWritten [2, 0, 2, 0, 0]], store zeroed 0 1 2)"
proof -
  have s: "play_step zeroed 2 (Some (1, 2, 2)) = (StoredInserted, store zeroed 0 1 2)"
    by (simp add: eval_defs)
  have w: "\<not> isGameWon (store zeroed 0 1 2) 2"
    by (simp add: eval_defs)
  have p: "play (store zeroed 0 1 2) 2 1 True [Some (0, 0, 0)] =
             Some ([Display [[0, 2], [0, 0]], Instructions, FileWritten [2, 0, 2, 0, 0]],
                   store zeroed 0 1 2)"
    by (simp add: eval_defs upt_rec)
  from applied_command_changes_one_cell [OF s, of 0 True "[Some (0, 0, 0)]"] s w p
  show ?thesis by (simp add: emit_def)
qed

section \<open>Inserting into an occupied cell\<close>

text \<open>
  An insertion aimed at a cell that holds a positive value (a value the player entered) is
  answered with "Error: cell is already occupied!" (line 184), and the array is unchanged.
\<close>

lemma insert_into_player_cell_rejected:
  assumes "1 \<le> i" "i \<le> sz" "1 \<le> j" "j \<le> sz" "1 \<le> val" "val \<le> sz"
    and "0 < cell arr (i - 1) (j - 1)"
  shows "play_step arr sz (Some (i, j, val)) = (CellOccupied, arr)"
  using assms by (simp add: play_step_def)

text \<open>
  For a cell that holds a negative value (a given of the puzzle) the branch of line 160 only
  handles \<open>val = 0\<close>: an insertion falls through to the duplicate scans and to the
  assignment of line 231, as if the cell were empty.
\<close>

lemma insert_into_given_cell_falls_through:
  assumes "1 \<le> i" "i \<le> sz" "1 \<le> j" "j \<le> sz" "1 \<le> val" "val \<le> sz"
    and "cell arr (i - 1) (j - 1) < 0"
  shows "play_step arr sz (Some (i, j, val)) = check_and_store arr sz i j val"
  using assms by (simp add: play_step_def)

text \<open>
  Claim C1. A placement with a value in \<open>[1, size]\<close> aimed at a cell that is a given or
  was filled by the player should fail with the occupied-cell error and leave the cell as it
  is. For a given the program does not do so: on the array whose cell \<open>(0, 0)\<close> holds \<open>-1\<close>,
  with side 2, the command \<^verbatim>\<open>1,1=2\<close> is answered "Value Inserted!" and the given is
  replaced by the player's 2; the command \<^verbatim>\<open>1,1=1\<close> is answered with the
  illegal-insertion error, not with the occupied-cell error.
\<close>

theorem insert_into_given_cell_overwrites:
  "cell (store zeroed 0 0 (- 1)) 0 0 = - 1 \<and>
   play_step (store zeroed 0 0 (- 1)) 2 (Some (1, 1, 2)) = (StoredInserted, store zeroed 0 0 2) \<and>
   cell (store zeroed 0 0 2) 0 0 = 2 \<and>
   play_step (store zeroed 0 0 (- 1)) 2 (Some (1, 1, 1)) =
     (IllegalInsertion, store zeroed 0 0 (- 1))"
  by (simp add: eval_defs)

section \<open>Clearing an empty cell\<close>

text \<open>
  Claim C5 says that a clear command aimed at an empty cell fails with an error. On the empty
  array of side 1 the command \<^verbatim>\<open>1,1=0\<close> is answered "Value Cleared!" (line 234), which
  is none of the error messages, and the game goes on.
\<close>

theorem clear_of_empty_cell_counterexample:
  "play_step zeroed 1 (Some (1, 1, 0)) = (StoredCleared, zeroed) \<and> \<not> is_error StoredCleared \<and>
   play zeroed 1 0 True [Some (1, 1, 0), Some (0, 0, 0)] =
     Some ([Says StoredCleared, Display [[0]], Instructions, FileWritten [1, 0]], zeroed)"
  by code_simp

text \<open>
  Claim C5, amended. For every array and every clear command \<^verbatim>\<open>i,j=0\<close> with \<open>i\<close> and
  \<open>j\<close> in \<open>[1, size]\<close> whose cell is empty, \<^verbatim>\<open>play\<close> answers "Value Cleared!" (line 234),
  not an error; the array is unchanged, and the game goes on with the next command after
  displaying the array again.
\<close>

theorem clear_of_empty_cell_says_cleared:
  assumes "1 \<le> i" "i \<le> sz" "1 \<le> j" "j \<le> sz" "cell arr (i - 1) (j - 1) = 0"
  shows "play_step arr sz (Some (i, j, 0)) = (StoredCleared, arr) \<and> \<not> is_error StoredCleared \<and>
         play arr sz d canWrite (Some (i, j, 0) # rest) =
           emit ((if d = 1 then displayLatinSquare arr sz @ [Instructions] else [])
                   @ [Says StoredCleared])
                (play arr sz 1 canWrite rest)"
proof -
  have s: "play_step arr sz (Some (i, j, 0)) = (StoredCleared, arr)"
    using assms by (simp add: play_step_def check_and_store_def scans_pass_zero store_same_value)
  have "\<exists>r c. 0 \<le> r \<and> r < sz \<and> 0 \<le> c \<and> c < sz \<and> cell arr r c = 0"
    using assms by (intro exI [of _ "i - 1"] exI [of _ "j - 1"]) simp
  then have "\<not> isGameWon arr sz"
    by (simp add: isGameWon_iff)
  with s show ?thesis by (simp add: is_error_def)
qed

theorem clear_of_empty_cell_says_cleared_witness:
  "(1::int) \<le> 1 \<and> cell zeroed (1 - 1) (1 - 1) = 0 \<and>
   play_step zeroed 1 (Some (1, 1, 0)) = (StoredCleared, zeroed)"
proof -
  have c: "cell zeroed (1 - 1) (1 - 1) = 0" by (simp add: eval_defs)
  from clear_of_empty_cell_says_cleared [of 1 1 1 zeroed, OF _ _ _ _ c] c
  show ?thesis by simp
qed

section \<open>Inserting and clearing again\<close>

text \<open>
  Claim C8. On an array of \<open>N\<close> rows of \<open>N\<close> cells with side at most \<open>N\<close>, when a command
  \<^verbatim>\<open>i,j=val\<close> aimed at an empty cell is answered "Value Inserted!", the clear command
  \<^verbatim>\<open>i,j=0\<close> on the resulting array is answered "Value Cleared!" and gives back exactly the
  array from before the insertion.
\<close>

theorem insert_then_clear_restores:
  assumes "wf_grid arr" "sz \<le> N" "cell arr (i - 1) (j - 1) = 0"
    and "play_step arr sz (Some (i, j, val)) = (StoredInserted, arr')"
  shows "play_step arr' sz (Some (i, j, 0)) = (ValueCleared, arr)"
proof -
  from assms(4) obtain i' j' val' where "Some (i, j, val) = Some (i', j', val')"
    and "1 \<le> i'" "i' \<le> sz" "1 \<le> j'" "j' \<le> sz" "0 \<le> val'" "val' \<le> sz"
    and "arr' = store arr (i' - 1) (j' - 1) val'" and "StoredInserted = StoredInserted \<longleftrightarrow> val' \<noteq> 0"
    by (rule play_step_stored) simp
  then have rng: "1 \<le> i" "i \<le> sz" "1 \<le> j" "j \<le> sz" "0 < val"
    and arr': "arr' = store arr (i - 1) (j - 1) val"
    by simp_all
  from assms(1,2) rng have "cell arr' (i - 1) (j - 1) = val"
    unfolding arr' by (intro cell_store_same) simp_all
  with rng have "play_step arr' sz (Some (i, j, 0)) = (ValueCleared, store arr' (i - 1) (j - 1) 0)"
    by (simp add: play_step_def)
  also have "store arr' (i - 1) (j - 1) 0 = arr"
    unfolding arr' using assms(3) by (simp add: store_same_value)
  finally show ?thesis .
qed

theorem insert_then_clear_restores_witness:
  "wf_grid zeroed \<and> (2::int) \<le> N \<and> cell zeroed (1 - 1) (2 - 1) = 0 \<and>
   play_step zeroed 2 (Some (1, 2, 2)) = (StoredInserted, store zeroed 0 1 2) \<and>
   play_step (store zeroed 0 1 2) 2 (Some (1, 2, 0)) = (ValueCleared, zeroed)"
proof -
  have w: "wf_grid zeroed" by (simp add: wf_grid_def zeroed_def N_def list_all_length)
  have n: "(2::int) \<le> N" by (simp add: N_def)
  have c: "cell zeroed (1 - 1) (2 - 1) = 0" by (simp add: eval_defs)
  have s: "play_step zeroed 2 (Some (1, 2, 2)) = (StoredInserted, store zeroed 0 1 2)"
    by (simp add: eval_defs)
  from insert_then_clear_restores [OF w n c s] w n c s
  show ?thesis by simp
qed

section \<open>No value twice in a row or column\<close>

lemmas dup_defs = no_duplicates_def row_values_def col_values_def distinct_values_def

lemma distinct_values_map_upt:
  "distinct_values (map f [0..<n]) \<longleftrightarrow>
     (\<forall>a<n. \<forall>b<n. a \<noteq> b \<and> f a \<noteq> 0 \<and> f b \<noteq> 0 \<longrightarrow> \<bar>f a\<bar> \<noteq> \<bar>f b\<bar>)"
  by (auto simp: distinct_values_def filter_map distinct_map inj_on_def o_def)

lemma all_nat_less_int:
  "(\<forall>r<nat sz. P (int r)) \<longleftrightarrow> (\<forall>r. 0 \<le> r \<and> r < sz \<longrightarrow> P r)"
proof
  assume l: "\<forall>r<nat sz. P (int r)"
  show "\<forall>r. 0 \<le> r \<and> r < sz \<longrightarrow> P r"
  proof (intro allI impI)
    fix r :: int
    assume "0 \<le> r \<and> r < sz"
    then have "nat r < nat sz" and "int (nat r) = r" by simp_all
    with l show "P r" by metis
  qed
next
  assume "\<forall>r. 0 \<le> r \<and> r < sz \<longrightarrow> P r"
  then show "\<forall>r<nat sz. P (int r)" by simp
qed

lemma no_duplicates_iff:
  "no_duplicates arr sz \<longleftrightarrow>
     (\<forall>r. 0 \<le> r \<and> r < sz \<longrightarrow> (\<forall>a. 0 \<le> a \<and> a < sz \<longrightarrow> (\<forall>b. 0 \<le> b \<and> b < sz \<longrightarrow>
        a \<noteq> b \<and> cell arr r a \<noteq> 0 \<and> cell arr r b \<noteq> 0 \<longrightarrow> \<bar>cell arr r a\<bar> \<noteq> \<bar>cell arr r b\<bar>))) \<and>
     (\<forall>c. 0 \<le> c \<and> c < sz \<longrightarrow> (\<forall>a. 0 \<le> a \<and> a < sz \<longrightarrow> (\<forall>b. 0 \<le> b \<and> b < sz \<longrightarrow>
        a \<noteq> b \<and> cell arr a c \<noteq> 0 \<and> cell arr b c \<noteq> 0 \<longrightarrow> \<bar>cell arr a c\<bar> \<noteq> \<bar>cell arr b c\<bar>)))"
  by (simp add: no_duplicates_def row_values_def col_values_def distinct_values_map_upt
        list_all_iff atLeast0LessThan Ball_def all_nat_less_int [symmetric])

lemma no_scan_hit:
  assumes "\<not> col_scan arr sz j val 0 (row_scan arr sz i val 0 False)"
  shows "\<forall>u. 0 \<le> u \<and> u < sz \<and> cell arr (i - 1) u \<noteq> 0 \<longrightarrow> \<bar>cell arr (i - 1) u\<bar> \<noteq> val"
    and "\<forall>u. 0 \<le> u \<and> u < sz \<and> cell arr u (j - 1) \<noteq> 0 \<longrightarrow> \<bar>cell arr u (j - 1)\<bar> \<noteq> val"
  using assms by (auto simp: col_scan_iff row_scan_iff)

lemma store_keeps_distinct:
  assumes wf: "wf_grid arr" "sz \<le> N"
    and rng: "0 \<le> a0" "a0 < sz" "0 \<le> b0" "b0 < sz" "0 \<le> val"
    and inv: "no_duplicates arr sz"
    and row: "val \<noteq> 0 \<Longrightarrow> \<forall>u. 0 \<le> u \<and> u < sz \<and> cell arr a0 u \<noteq> 0 \<longrightarrow> \<bar>cell arr a0 u\<bar> \<noteq> val"
    and col: "val \<noteq> 0 \<Longrightarrow> \<forall>u. 0 \<le> u \<and> u < sz \<and> cell arr u b0 \<noteq> 0 \<longrightarrow> \<bar>cell arr u b0\<bar> \<noteq> val"
  shows "no_duplicates (store arr a0 b0 val) sz"
proof -
  let ?arr' = "store arr a0 b0 val"
  have c: "cell ?arr' x y = (if x = a0 \<and> y = b0 then val else cell arr x y)"
    if "0 \<le> x" "0 \<le> y" for x y
  proof (cases "x = a0 \<and> y = b0")
    case True
    with wf rng show ?thesis by (simp add: cell_store_same)
  next
    case False
    then have "(x, y) \<noteq> (a0, b0)" by simp
    with that rng have "cell ?arr' x y = cell arr x y" by (intro cell_store_other)
    with False show ?thesis by auto
  qed
  have v: "\<bar>val\<bar> = val" using rng by simp
  have rows: "\<bar>cell ?arr' r a\<bar> \<noteq> \<bar>cell ?arr' r b\<bar>"
    if "0 \<le> r" "r < sz" "0 \<le> a" "a < sz" "0 \<le> b" "b < sz" "a \<noteq> b"
      "cell ?arr' r a \<noteq> 0" "cell ?arr' r b \<noteq> 0" for r a b
  proof -
    from inv that(1-7) have old: "cell arr r a \<noteq> 0 \<Longrightarrow> cell arr r b \<noteq> 0 \<Longrightarrow>
        \<bar>cell arr r a\<bar> \<noteq> \<bar>cell arr r b\<bar>"
      unfolding no_duplicates_iff by blast
    consider "r = a0 \<and> a = b0" | "r = a0 \<and> b = b0" | "\<not> (r = a0 \<and> a = b0) \<and> \<not> (r = a0 \<and> b = b0)"
      by blast
    then show ?thesis
    proof cases
      case 1
      with that have "val \<noteq> 0" and "cell arr a0 b \<noteq> 0" by (simp_all add: c)
      with row that have "\<bar>cell arr a0 b\<bar> \<noteq> val" by blast
      with 1 that v show ?thesis by (simp add: c)
    next
      case 2
      with that have "val \<noteq> 0" and "cell arr a0 a \<noteq> 0" by (simp_all add: c)
      with row that have "\<bar>cell arr a0 a\<bar> \<noteq> val" by blast
      with 2 that v show ?thesis by (simp add: c)
    next
      case 3
      with that old show ?thesis by (auto simp: c)
    qed
  qed
  have cols: "\<bar>cell ?arr' a k\<bar> \<noteq> \<bar>cell ?arr' b k\<bar>"
    if "0 \<le> k" "k < sz" "0 \<le> a" "a < sz" "0 \<le> b" "b < sz" "a \<noteq> b"
      "cell ?arr' a k \<noteq> 0" "cell ?arr' b k \<noteq> 0" for k a b
  proof -
    from inv that(1-7) have old: "cell arr a k \<noteq> 0 \<Longrightarrow> cell arr b k \<noteq> 0 \<Longrightarrow>
        \<bar>cell arr a k\<bar> \<noteq> \<bar>cell arr b k\<bar>"
      unfolding no_duplicates_iff by blast
    consider "a = a0 \<and> k = b0" | "b = a0 \<and> k = b0" | "\<not> (a = a0 \<and> k = b0) \<and> \<not> (b = a0 \<and> k = b0)"
      by blast
    then show ?thesis
    proof cases
      case 1
      with that have "val \<noteq> 0" and "cell arr b b0 \<noteq> 0" by (simp_all add: c)
      with col that have "\<bar>cell arr b b0\<bar> \<noteq> val" by blast
      with 1 that v show ?thesis by (simp add: c)
    next
      case 2
      with that have "val \<noteq> 0" and "cell arr a b0 \<noteq> 0" by (simp_all add: c)
      with col that have "\<bar>cell arr a b0\<bar> \<noteq> val" by blast
      with 2 that v show ?thesis by (simp add: c)
    next
      case 3
      with that old show ?thesis by (auto simp: c)
    qed
  qed
  show ?thesis
    unfolding no_duplicates_iff using rows cols by blast
qed

text \<open>
  Whatever the command, the array that one call of \<^verbatim>\<open>play\<close> leaves is again an array of
  \<open>N\<close> rows of \<open>N\<close> cells, and holds no value twice in a row or column of the block when
  the array before did not.
\<close>

lemma play_step_unchanged:
  assumes "play_step arr sz inp = (r, arr')"
    and "\<not> (r = ValueCleared \<or> r = StoredCleared \<or> r = StoredInserted)"
  shows "arr' = arr"
  using assms
  by (auto simp: play_step_def check_and_store_def Let_def
           split: option.splits prod.splits if_splits)

lemma play_step_wf:
  assumes "wf_grid arr" "play_step arr sz inp = (r, arr')"
  shows "wf_grid arr'"
proof (cases "r = ValueCleared \<or> r = StoredCleared \<or> r = StoredInserted")
  case False
  with assms(2) have "arr' = arr" by (rule play_step_unchanged)
  with assms(1) show ?thesis by simp
next
  case True
  with assms(2) obtain i j val where "inp = Some (i, j, val)"
    "1 \<le> i" "i \<le> sz" "1 \<le> j" "j \<le> sz" "0 \<le> val" "val \<le> sz"
    "arr' = store arr (i - 1) (j - 1) val"
    by (rule play_step_stored)
  with assms(1) show ?thesis by simp
qed

lemma play_step_keeps_distinct:
  assumes "wf_grid arr" "sz \<le> N" "no_duplicates arr sz"
    and "play_step arr sz inp = (r, arr')"
  shows "no_duplicates arr' sz"
proof (cases "r = ValueCleared \<or> r = StoredCleared \<or> r = StoredInserted")
  case False
  with assms(4) have "arr' = arr" by (rule play_step_unchanged)
  with assms(3) show ?thesis by simp
next
  case True
  with assms(4) obtain i j val where "inp = Some (i, j, val)"
    and rng: "1 \<le> i" "i \<le> sz" "1 \<le> j" "j \<le> sz" "0 \<le> val" "val \<le> sz"
    and arr': "arr' = store arr (i - 1) (j - 1) val"
    and ins: "r = StoredInserted \<longleftrightarrow> val \<noteq> 0"
    and "r = ValueCleared \<longleftrightarrow> 0 < cell arr (i - 1) (j - 1) \<and> val = 0"
    and "r = StoredCleared \<longleftrightarrow> cell arr (i - 1) (j - 1) = 0 \<and> val = 0"
    and scans: "r \<noteq> ValueCleared \<Longrightarrow> \<not> col_scan arr sz j val 0 (row_scan arr sz i val 0 False)"
    by (rule play_step_stored) blast
  have "val \<noteq> 0 \<Longrightarrow> \<not> col_scan arr sz j val 0 (row_scan arr sz i val 0 False)"
    using ins scans by auto
  then have "val \<noteq> 0 \<Longrightarrow>
        \<forall>u. 0 \<le> u \<and> u < sz \<and> cell arr (i - 1) u \<noteq> 0 \<longrightarrow> \<bar>cell arr (i - 1) u\<bar> \<noteq> val"
    and "val \<noteq> 0 \<Longrightarrow>
        \<forall>u. 0 \<le> u \<and> u < sz \<and> cell arr u (j - 1) \<noteq> 0 \<longrightarrow> \<bar>cell arr u (j - 1)\<bar> \<noteq> val"
    by (simp_all add: no_scan_hit)
  with assms(1-3) rng show ?thesis
    unfolding arr' by (intro store_keeps_distinct) simp_all
qed

text \<open>
  Claim C2. On an array of \<open>N\<close> rows of \<open>N\<close> cells with side at most \<open>N\<close> in which no row
  and no column of the block holds a value twice among its cells that are not empty (values
  compared by absolute value), a placement \<^verbatim>\<open>i,j=val\<close> that the checks of \<^verbatim>\<open>play\<close>
  accept (it is answered "Value Inserted!") leaves an array in which again no row and no
  column holds a value twice, and whose cell \<open>(i - 1, j - 1)\<close> holds \<open>val\<close>.
\<close>

theorem accepted_placement_keeps_distinct:
  assumes "wf_grid arr" "sz \<le> N" "no_duplicates arr sz"
    and "play_step arr sz (Some (i, j, val)) = (StoredInserted, arr')"
  shows "no_duplicates arr' sz \<and> cell arr' (i - 1) (j - 1) = val \<and> val \<noteq> 0"
proof -
  from assms(4) obtain i' j' val' where "Some (i, j, val) = Some (i', j', val')"
    and "1 \<le> i'" "i' \<le> sz" "1 \<le> j'" "j' \<le> sz" "0 \<le> val'" "val' \<le> sz"
    and "arr' = store arr (i' - 1) (j' - 1) val'"
    and "StoredInserted = StoredInserted \<longleftrightarrow> val' \<noteq> 0"
    by (rule play_step_stored) simp
  then have rng: "1 \<le> i" "i \<le> sz" "1 \<le> j" "j \<le> sz" "val \<noteq> 0"
    and arr': "arr' = store arr (i - 1) (j - 1) val"
    by simp_all
  from assms(1,2) rng have "cell arr' (i - 1) (j - 1) = val"
    unfolding arr' by (intro cell_store_same) simp_all
  moreover from assms have "no_duplicates arr' sz"
    by (rule play_step_keeps_distinct)
  ultimately show ?thesis using rng by simp
qed

theorem accepted_placement_keeps_distinct_witness:
  "wf_grid (store zeroed 0 0 (- 1)) \<and> (2::int) \<le> N \<and> no_duplicates (store zeroed 0 0 (- 1)) 2 \<and>
   play_step (store zeroed 0 0 (- 1)) 2 (Some (1, 2, 2)) =
     (StoredInserted, store (store zeroed 0 0 (- 1)) 0 1 2) \<and>
   no_duplicates (store (store zeroed 0 0 (- 1)) 0 1 2) 2 \<and>
   cell (store (store zeroed 0 0 (- 1)) 0 1 2) (1 - 1) (2 - 1) = 2"
proof -
  have w: "wf_grid (store zeroed 0 0 (- 1))" by (simp add: wf_grid_zeroed)
  have n: "(2::int) \<le> N" by (simp add: N_def)
  have d: "no_duplicates (store zeroed 0 0 (- 1)) 2"
    by (simp add: dup_defs eval_defs upt_rec)
  have s: "play_step (store zeroed 0 0 (- 1)) 2 (Some (1, 2, 2)) =
     (StoredInserted, store (store zeroed 0 0 (- 1)) 0 1 2)"
    by (simp add: eval_defs)
  from accepted_placement_keeps_distinct [OF w n d s] w n d s
  show ?thesis by simp
qed

text \<open>
  So the array that a game ends with holds no value twice when the array it started from
  did not.
\<close>

lemma play_keeps_distinct:
  assumes "sz \<le> N"
  shows "wf_grid arr \<Longrightarrow> no_duplicates arr sz \<Longrightarrow> play arr sz d canWrite cs = Some (es, g) \<Longrightarrow>
         wf_grid g \<and> no_duplicates g sz"
proof (induction cs arbitrary: arr d es)
  case Nil
  then show ?case by simp
next
  case (Cons inp cs)
  obtain r arr' where s: "play_step arr sz inp = (r, arr')"
    by (cases "play_step arr sz inp")
  from Cons.prems(1) s have w: "wf_grid arr'" by (rule play_step_wf)
  from Cons.prems(1) assms Cons.prems(2) s have n: "no_duplicates arr' sz"
    by (rule play_step_keeps_distinct)
  consider (stop) "g = arr'" | (go) d' es' where "play arr' sz d' canWrite cs = Some (es', g)"
    using Cons.prems(3) s
    by (cases r) (auto simp: Let_def emit_def split: if_splits)
  then show ?case
  proof cases
    case stop
    with w n show ?thesis by simp
  next
    case go
    from Cons.IH [OF w n go] show ?thesis .
  qed
qed

section \<open>readLatinSquare, characterised\<close>

lemma read_row_ok:
  assumes "wf_grid sq" "0 \<le> i" "i < N" "0 \<le> j" "n \<le> N" "nat (n - j) \<le> length fp"
  shows "\<exists>sq'. read_row n i j sq fp = (True, sq', drop (nat (n - j)) fp) \<and> wf_grid sq' \<and>
           (\<forall>x y. 0 \<le> x \<and> 0 \<le> y \<longrightarrow>
              cell sq' x y = (if x = i \<and> j \<le> y \<and> y < n then fp ! nat (y - j) else cell sq x y))"
  using assms
proof (induction n i j sq fp rule: read_row.induct)
  case (1 n i j sq fp)
  show ?case
  proof (cases "j < n")
    case False
    then show ?thesis using "1.prems" by (subst read_row.simps) simp
  next
    case True
    with "1.prems" obtain v fp' where fp: "fp = v # fp'"
      by (cases fp) auto
    have len: "nat (n - (j + 1)) \<le> length fp'"
      using "1.prems" True fp by auto
    from "1.IH" [OF True fp] "1.prems" len
    obtain sq' where r: "read_row n i (j + 1) (store sq i j v) fp' = (True, sq', drop (nat (n - (j + 1))) fp')"
      and w: "wf_grid sq'"
      and c: "\<forall>x y. 0 \<le> x \<and> 0 \<le> y \<longrightarrow>
              cell sq' x y = (if x = i \<and> j + 1 \<le> y \<and> y < n then fp' ! nat (y - (j + 1))
                              else cell (store sq i j v) x y)"
      by auto
    have d: "drop (nat (n - (j + 1))) fp' = drop (nat (n - j)) fp"
    proof -
      from True have "nat (n - j) = Suc (nat (n - (j + 1)))" by simp
      then show ?thesis by (simp add: fp)
    qed
    have s: "read_row n i j sq fp = (True, sq', drop (nat (n - j)) fp)"
      using True r d by (subst read_row.simps) (simp add: fp)
    have "cell sq' x y = (if x = i \<and> j \<le> y \<and> y < n then fp ! nat (y - j) else cell sq x y)"
      if "0 \<le> x" "0 \<le> y" for x y
    proof (cases "x = i \<and> y = j")
      case xy: True
      with c that have "cell sq' x y = cell (store sq i j v) i j" by simp
      also have "\<dots> = v"
        using "1.prems" True by (intro cell_store_same) simp_all
      finally show ?thesis using xy True by (simp add: fp)
    next
      case nxy: False
      then have "(x, y) \<noteq> (i, j)" by simp
      with that "1.prems" have o: "cell (store sq i j v) x y = cell sq x y"
        by (intro cell_store_other)
      show ?thesis
      proof (cases "x = i \<and> j + 1 \<le> y \<and> y < n")
        case True
        then have "nat (y - j) = Suc (nat (y - (j + 1)))" by linarith
        with True c that show ?thesis by (simp add: fp)
      next
        case False
        with nxy have n2: "\<not> (x = i \<and> j \<le> y \<and> y < n)" by auto
        from c that have "cell sq' x y =
            (if x = i \<and> j + 1 \<le> y \<and> y < n then fp' ! nat (y - (j + 1))
             else cell (store sq i j v) x y)"
          by blast
        also have "\<dots> = cell (store sq i j v) x y"
          using False by (rule if_not_P)
        finally show ?thesis
          using o n2 by (simp only: if_not_P if_False)
      qed
    qed
    with s w show ?thesis by blast
  qed
qed

lemma read_row_short:
  "length fp < nat (n - j) \<Longrightarrow> \<not> fst (read_row n i j sq fp)"
proof (induction n i j sq fp rule: read_row.induct)
  case (1 n i j sq fp)
  then have lt: "j < n" by simp
  show ?case
  proof (cases fp)
    case Nil
    with lt show ?thesis by (subst read_row.simps) simp
  next
    case (Cons v fp')
    with "1.prems" have "length fp' < nat (n - (j + 1))" by simp
    from "1.IH" [OF lt Cons this] lt Cons show ?thesis
      by (subst read_row.simps) simp
  qed
qed

lemma rows_left:
  fixes n i :: int
  assumes "i < n"
  shows "(n - i) * n = n + (n - (i + 1)) * n" and "0 \<le> (n - (i + 1)) * n \<or> n < 0"
proof -
  show "(n - i) * n = n + (n - (i + 1)) * n" by (simp add: algebra_simps)
  show "0 \<le> (n - (i + 1)) * n \<or> n < 0"
  proof (cases "n < 0")
    case False
    with assms have "0 \<le> n - (i + 1)" and "0 \<le> n" by simp_all
    then have "0 \<le> (n - (i + 1)) * n" by (rule mult_nonneg_nonneg)
    then show ?thesis ..
  qed simp
qed

lemma read_rows_ok:
  assumes "wf_grid sq" "0 \<le> i" "i \<le> n" "n \<le> N" "nat ((n - i) * n) \<le> length fp"
  shows "\<exists>sq'. read_rows n i sq fp = (True, sq') \<and> wf_grid sq' \<and>
           (\<forall>x y. 0 \<le> x \<and> 0 \<le> y \<longrightarrow>
              cell sq' x y = (if i \<le> x \<and> x < n \<and> y < n then fp ! nat ((x - i) * n + y)
                              else cell sq x y))"
  using assms
proof (induction n i sq fp rule: read_rows.induct)
  case (1 n i sq fp)
  show ?case
  proof (cases "i < n")
    case False
    then show ?thesis using "1.prems" by (subst read_rows.simps) simp
  next
    case True
    with "1.prems" have n0: "0 \<le> n" "0 < n" by simp_all
    from rows_left [OF True] n0 have split: "(n - i) * n = n + (n - (i + 1)) * n"
      and nonneg: "0 \<le> (n - (i + 1)) * n" by simp_all
    from "1.prems" split nonneg n0 have len: "nat n + nat ((n - (i + 1)) * n) \<le> length fp"
      by (simp add: nat_add_distrib)
    then have "nat (n - 0) \<le> length fp" by simp
    with "1.prems" True read_row_ok [of sq i 0 n fp]
    obtain sq1 where r1: "read_row n i 0 sq fp = (True, sq1, drop (nat n) fp)"
      and w1: "wf_grid sq1"
      and c1: "\<forall>x y. 0 \<le> x \<and> 0 \<le> y \<longrightarrow>
                cell sq1 x y = (if x = i \<and> 0 \<le> y \<and> y < n then fp ! nat (y - 0) else cell sq x y)"
      by auto
    have len': "nat ((n - (i + 1)) * n) \<le> length (drop (nat n) fp)"
      using len by simp
    from "1.IH" [OF True r1 [symmetric] refl TrueI w1] "1.prems" True len'
    obtain sq' where r: "read_rows n (i + 1) sq1 (drop (nat n) fp) = (True, sq')"
      and w: "wf_grid sq'"
      and c: "\<forall>x y. 0 \<le> x \<and> 0 \<le> y \<longrightarrow>
              cell sq' x y = (if i + 1 \<le> x \<and> x < n \<and> y < n
                              then drop (nat n) fp ! nat ((x - (i + 1)) * n + y)
                              else cell sq1 x y)"
      by auto
    have s: "read_rows n i sq fp = (True, sq')"
      using True r1 r by (subst read_rows.simps) simp
    have "cell sq' x y = (if i \<le> x \<and> x < n \<and> y < n then fp ! nat ((x - i) * n + y)
                          else cell sq x y)"
      if "0 \<le> x" "0 \<le> y" for x y
    proof -
      consider (later) "i + 1 \<le> x \<and> x < n \<and> y < n" | (this_row) "x = i \<and> y < n"
        | (outside) "\<not> (i \<le> x \<and> x < n \<and> y < n)"
        by fastforce
      then show ?thesis
      proof cases
        case later
        then have "0 \<le> x - (i + 1)" by simp
        with n0 have "0 \<le> (x - (i + 1)) * n" by (intro mult_nonneg_nonneg) simp_all
        with that n0 have "nat n + nat ((x - (i + 1)) * n + y) = nat (n + ((x - (i + 1)) * n + y))"
          by (simp add: nat_add_distrib)
        also have "n + ((x - (i + 1)) * n + y) = (x - i) * n + y"
          by (simp add: algebra_simps)
        finally have idx: "nat n + nat ((x - (i + 1)) * n + y) = nat ((x - i) * n + y)" .
        from later c that have "cell sq' x y = drop (nat n) fp ! nat ((x - (i + 1)) * n + y)"
          by simp
        also have "\<dots> = fp ! (nat n + nat ((x - (i + 1)) * n + y))"
          using len by (intro nth_drop) simp
        finally show ?thesis using later idx by simp
      next
        case this_row
        with c that have "cell sq' x y = cell sq1 x y" by simp
        also from c1 that this_row have "\<dots> = fp ! nat y" by simp
        finally show ?thesis using this_row True by simp
      next
        case outside
        then have o1: "\<not> (i + 1 \<le> x \<and> x < n \<and> y < n)" and o2: "\<not> (x = i \<and> 0 \<le> y \<and> y < n)"
          using True by auto
        from c that have "cell sq' x y =
            (if i + 1 \<le> x \<and> x < n \<and> y < n
             then drop (nat n) fp ! nat ((x - (i + 1)) * n + y) else cell sq1 x y)"
          by blast
        also have "\<dots> = cell sq1 x y"
          using o1 by (rule if_not_P)
        also from c1 that have "cell sq1 x y =
            (if x = i \<and> 0 \<le> y \<and> y < n then fp ! nat (y - 0) else cell sq x y)"
          by blast
        also have "\<dots> = cell sq x y"
          using o2 by (rule if_not_P)
        finally show ?thesis
          using outside by (simp only: if_not_P if_False)
      qed
    qed
    with s w show ?thesis by blast
  qed
qed

lemma read_rows_short:
  assumes "wf_grid sq" "0 \<le> i" "0 \<le> n" "n \<le> N" "length fp < nat ((n - i) * n)"
  shows "\<not> fst (read_rows n i sq fp)"
  using assms
proof (induction n i sq fp rule: read_rows.induct)
  case (1 n i sq fp)
  have lt: "i < n"
  proof (rule ccontr)
    assume "\<not> i < n"
    with "1.prems" have "(n - i) * n \<le> 0" by (intro mult_nonpos_nonneg) simp_all
    with "1.prems" show False by simp
  qed
  from rows_left [OF lt] "1.prems" have split: "(n - i) * n = n + (n - (i + 1)) * n"
    and nonneg: "0 \<le> (n - (i + 1)) * n" by simp_all
  show ?case
  proof (cases "length fp < nat n")
    case True
    then have "\<not> fst (read_row n i 0 sq fp)" by (intro read_row_short) simp
    with lt show ?thesis
      by (subst read_rows.simps) (simp add: case_prod_beta)
  next
    case False
    then have "nat (n - 0) \<le> length fp" by simp
    with "1.prems" lt read_row_ok [of sq i 0 n fp]
    obtain sq1 where r1: "read_row n i 0 sq fp = (True, sq1, drop (nat n) fp)"
      and w1: "wf_grid sq1"
      by auto
    from "1.prems" split nonneg have "length fp < nat n + nat ((n - (i + 1)) * n)"
      by (simp add: nat_add_distrib)
    with False have "length (drop (nat n) fp) < nat ((n - (i + 1)) * n)"
      by (simp add: less_diff_conv2)
    with "1.IH" [OF lt r1 [symmetric] refl TrueI w1] "1.prems"
    have "\<not> fst (read_rows n (i + 1) sq1 (drop (nat n) fp))" by simp
    with lt r1 show ?thesis
      by (subst read_rows.simps) simp
  qed
qed

lemma cell_zeroed: "0 \<le> x \<Longrightarrow> x < N \<Longrightarrow> 0 \<le> y \<Longrightarrow> y < N \<Longrightarrow> cell zeroed x y = 0"
  by (simp add: cell_def zeroed_def nat_less_iff)

lemma readLatinSquare_ok:
  assumes "1 \<le> n" "n \<le> N" "nat (n * n) \<le> length fp"
  shows "\<exists>sq. readLatinSquare (Some (n # fp)) sq0 = (n, sq) \<and> wf_grid sq \<and>
           (\<forall>x y. 0 \<le> x \<and> 0 \<le> y \<longrightarrow>
              cell sq x y = (if x < n \<and> y < n then fp ! nat (x * n + y) else cell zeroed x y))"
proof -
  from assms read_rows_ok [of zeroed 0 n fp]
  obtain sq where "read_rows n 0 zeroed fp = (True, sq)" and "wf_grid sq"
    and "\<forall>x y. 0 \<le> x \<and> 0 \<le> y \<longrightarrow>
           cell sq x y = (if 0 \<le> x \<and> x < n \<and> y < n then fp ! nat ((x - 0) * n + y)
                          else cell zeroed x y)"
    by (auto simp: wf_grid_zeroed)
  with assms show ?thesis
    by (simp add: readLatinSquare_def)
qed

lemma readLatinSquare_short:
  assumes "1 \<le> n" "n \<le> N" "length fp < nat (n * n)"
  shows "fst (readLatinSquare (Some (n # fp)) sq0) = - 1"
proof -
  from assms read_rows_short [of zeroed 0 n fp]
  have "\<not> fst (read_rows n 0 zeroed fp)"
    by (simp add: wf_grid_zeroed)
  with assms show ?thesis
    by (simp add: readLatinSquare_def case_prod_beta)
qed

lemma readLatinSquare_loaded:
  assumes "readLatinSquare (Some (n # fp)) sq0 = (n', sq)" "n' \<noteq> - 1"
  shows "n' = n \<and> 1 \<le> n \<and> n \<le> N \<and> nat (n * n) \<le> length fp \<and> wf_grid sq \<and>
         (\<forall>x y. 0 \<le> x \<and> 0 \<le> y \<longrightarrow>
              cell sq x y = (if x < n \<and> y < n then fp ! nat (x * n + y) else cell zeroed x y))"
proof -
  from assms have n: "1 \<le> n" "n \<le> N"
    by (auto simp: readLatinSquare_def split: if_splits)
  have len: "nat (n * n) \<le> length fp"
  proof (rule ccontr)
    assume "\<not> nat (n * n) \<le> length fp"
    with n readLatinSquare_short [of n fp sq0] assms show False by simp
  qed
  from readLatinSquare_ok [OF n len, of sq0] assms n len show ?thesis
    by auto
qed

lemma readLatinSquare_file:
  assumes "readLatinSquare infile sq0 = (n, sq)" "n \<noteq> - 1"
  shows "\<exists>fp. infile = Some (n # fp)"
proof (cases infile)
  case None
  with assms show ?thesis by (simp add: readLatinSquare_def)
next
  case (Some toks)
  show ?thesis
  proof (cases toks)
    case Nil
    with Some assms show ?thesis by (simp add: readLatinSquare_def)
  next
    case (Cons m fp)
    with Some assms readLatinSquare_loaded [of m fp sq0 n sq] show ?thesis by simp
  qed
qed

section \<open>Loading does not check the cells\<close>

text \<open>
  Claim C6 says that a cell value outside \<open>[0, side]\<close> makes loading fail, so that the game
  never starts. The file with side 1 and the single cell 5 is loaded: \<^verbatim>\<open>readLatinSquare\<close>
  returns 1 with the 5 in the array, and \<^verbatim>\<open>main\<close> starts \<^verbatim>\<open>play\<close>, which displays the
  array and, on \<^verbatim>\<open>0,0=0\<close>, writes it out.
\<close>

theorem load_stores_out_of_range_value:
  "readLatinSquare (Some [1, 5]) zeroed = (1, store zeroed 0 0 5) \<and>
   cell (store zeroed 0 0 5) 0 0 = 5 \<and>
   main (Some (Some [1, 5])) True [Some (0, 0, 0)] =
     Some (0, [Display [[5]], Instructions, FileWritten [1, 5]])"
  by code_simp

text \<open>
  Claim C6, amended. For every input whose side \<open>n\<close> is accepted (\<open>1 \<le> n \<le> N\<close>),
  loading never looks at the range of a cell value: when the file holds \<open>n * n\<close> integers
  after the side, whatever they are, \<^verbatim>\<open>readLatinSquare\<close> returns \<open>n\<close>, cell \<open>(x, y)\<close> of
  the block holds the integer at position \<open>x * n + y\<close> unchanged, and \<^verbatim>\<open>main\<close> starts the
  game; loading fails, and the game does not start, exactly when fewer than \<open>n * n\<close>
  integers can be read.
\<close>

theorem load_does_not_check_cells:
  assumes "1 \<le> n" "n \<le> N"
  shows "(nat (n * n) \<le> length fp \<longrightarrow>
           fst (readLatinSquare (Some (n # fp)) sq0) = n \<and>
           (\<forall>x y. 0 \<le> x \<and> x < n \<and> 0 \<le> y \<and> y < n \<longrightarrow>
              cell (snd (readLatinSquare (Some (n # fp)) sq0)) x y = fp ! nat (x * n + y)) \<and>
           main (Some (Some (n # fp))) canWrite stdin =
             map_option (\<lambda>(es, arr). (0, es))
               (play (snd (readLatinSquare (Some (n # fp)) zeroed)) n 1 canWrite stdin)) \<and>
         (length fp < nat (n * n) \<longrightarrow>
           fst (readLatinSquare (Some (n # fp)) sq0) = - 1 \<and>
           main (Some (Some (n # fp))) canWrite stdin = Some (0, [ReadFailed]))"
proof (intro conjI impI)
  assume len: "nat (n * n) \<le> length fp"
  from readLatinSquare_ok [OF assms len, of sq0]
  obtain sq where r: "readLatinSquare (Some (n # fp)) sq0 = (n, sq)"
    and c: "\<forall>x y. 0 \<le> x \<and> 0 \<le> y \<longrightarrow>
              cell sq x y = (if x < n \<and> y < n then fp ! nat (x * n + y) else cell zeroed x y)"
    by blast
  from r show "fst (readLatinSquare (Some (n # fp)) sq0) = n" by simp
  from r c show "\<forall>x y. 0 \<le> x \<and> x < n \<and> 0 \<le> y \<and> y < n \<longrightarrow>
              cell (snd (readLatinSquare (Some (n # fp)) sq0)) x y = fp ! nat (x * n + y)"
    by simp
  from readLatinSquare_ok [OF assms len, of zeroed]
  obtain sq' where "readLatinSquare (Some (n # fp)) zeroed = (n, sq')" by blast
  with assms show "main (Some (Some (n # fp))) canWrite stdin =
             map_option (\<lambda>(es, arr). (0, es))
               (play (snd (readLatinSquare (Some (n # fp)) zeroed)) n 1 canWrite stdin)"
    by (simp add: main_def)
next
  assume len: "length fp < nat (n * n)"
  from readLatinSquare_short [OF assms len]
  show "fst (readLatinSquare (Some (n # fp)) sq0) = - 1" .
  from readLatinSquare_short [OF assms len, of zeroed]
  show "main (Some (Some (n # fp))) canWrite stdin = Some (0, [ReadFailed])"
    by (simp add: main_def case_prod_beta)
qed

theorem load_does_not_check_cells_witness:
  "(1::int) \<le> 1 \<and> (1::int) \<le> N \<and> nat (1 * 1) \<le> length [5 :: int] \<and>
   fst (readLatinSquare (Some [1, 5]) zeroed) = 1 \<and>
   cell (snd (readLatinSquare (Some [1, 5]) zeroed)) 0 0 = 5"
proof -
  have n: "(1::int) \<le> N" by (simp add: N_def)
  from load_does_not_check_cells [OF _ n, of "[5]" zeroed True "[]"] n
  show ?thesis by simp
qed

section \<open>Loaded cells\<close>

text \<open>
  A clear command aimed at a negative cell is answered "Error: illegal to clear cell!" and
  leaves the array as it is; aimed at a positive cell it empties the cell.
\<close>

lemma clear_given_cell_rejected:
  assumes "1 \<le> i" "i \<le> sz" "1 \<le> j" "j \<le> sz" "cell arr (i - 1) (j - 1) < 0"
  shows "play_step arr sz (Some (i, j, 0)) = (IllegalClear, arr)"
  using assms by (simp add: play_step_def)

lemma clear_player_cell:
  assumes "1 \<le> i" "i \<le> sz" "1 \<le> j" "j \<le> sz" "0 < cell arr (i - 1) (j - 1)"
  shows "play_step arr sz (Some (i, j, 0)) = (ValueCleared, store arr (i - 1) (j - 1) 0)"
  using assms by (simp add: play_step_def)

text \<open>
  Claim C4 says that every value \<open>v > 0\<close> of the file becomes a given that no command can
  clear. The file with side 1 and the single cell 1 is loaded with the 1 kept positive, and the
  command \<^verbatim>\<open>1,1=0\<close> clears it.
\<close>

theorem loaded_positive_cell_cleared:
  "readLatinSquare (Some [1, 1]) zeroed = (1, store zeroed 0 0 1) \<and>
   cell (store zeroed 0 0 1) 0 0 = 1 \<and>
   play_step (store zeroed 0 0 1) 1 (Some (1, 1, 0)) = (ValueCleared, zeroed) \<and>
   cell zeroed 0 0 = 0"
  by code_simp

text \<open>
  Claim C4, amended. For every successfully loaded grid, every cell of the block holds the
  integer read from the file unchanged, so the sign written in the file decides the kind of
  the cell: a value \<open>v < 0\<close> is a given, and a clear command aimed at it is rejected ("illegal
  to clear cell") with the array unchanged; a value \<open>v > 0\<close> is an ordinary player's value,
  which a clear command empties; and \<open>0\<close> is an empty cell.
\<close>

theorem loaded_cells_by_sign:
  assumes "readLatinSquare infile sq0 = (n, sq)" "n \<noteq> - 1"
    and "0 \<le> x" "x < n" "0 \<le> y" "y < n"
  shows "(\<exists>fp. infile = Some (n # fp) \<and> cell sq x y = fp ! nat (x * n + y)) \<and>
         (cell sq x y < 0 \<longrightarrow> play_step sq n (Some (x + 1, y + 1, 0)) = (IllegalClear, sq)) \<and>
         (0 < cell sq x y \<longrightarrow>
            play_step sq n (Some (x + 1, y + 1, 0)) = (ValueCleared, store sq x y 0) \<and>
            cell (store sq x y 0) x y = 0)"
proof -
  from readLatinSquare_file [OF assms(1,2)] obtain fp where f: "infile = Some (n # fp)" ..
  from readLatinSquare_loaded [OF assms(1) [unfolded f] assms(2)]
  have n: "n \<le> N" and w: "wf_grid sq"
    and c: "\<forall>x y. 0 \<le> x \<and> 0 \<le> y \<longrightarrow>
              cell sq x y = (if x < n \<and> y < n then fp ! nat (x * n + y) else cell zeroed x y)"
    by simp_all
  from c assms(3-6) have "cell sq x y = fp ! nat (x * n + y)" by simp
  with f have "\<exists>fp. infile = Some (n # fp) \<and> cell sq x y = fp ! nat (x * n + y)" by simp
  moreover have "play_step sq n (Some (x + 1, y + 1, 0)) = (IllegalClear, sq)"
    if "cell sq x y < 0"
    using assms(3-6) that by (intro clear_given_cell_rejected) simp_all
  moreover have "play_step sq n (Some (x + 1, y + 1, 0)) = (ValueCleared, store sq x y 0)"
    if "0 < cell sq x y"
    using clear_player_cell [of "x + 1" n "y + 1" sq] assms(3-6) that by simp
  moreover have "cell (store sq x y 0) x y = 0"
    using w n assms(3-6) by (intro cell_store_same) simp_all
  ultimately show ?thesis by blast
qed

theorem loaded_cells_by_sign_witness:
  "readLatinSquare (Some [2, - 1, 2, 0, 0]) zeroed = (2, store (store zeroed 0 0 (- 1)) 0 1 2) \<and>
   cell (store (store zeroed 0 0 (- 1)) 0 1 2) 0 0 = - 1 \<and>
   play_step (store (store zeroed 0 0 (- 1)) 0 1 2) 2 (Some (1, 1, 0)) =
     (IllegalClear, store (store zeroed 0 0 (- 1)) 0 1 2)"
proof -
  have r: "readLatinSquare (Some [2, - 1, 2, 0, 0]) zeroed = (2, store (store zeroed 0 0 (- 1)) 0 1 2)"
    by code_simp
  from loaded_cells_by_sign [OF r, of 0 0] r
  show ?thesis by simp
qed

section \<open>A grid that is full when loaded\<close>

lemma given_one_rejects:
  assumes "cell arr 0 0 = - 1" "inp \<noteq> Some (0, 0, 0)"
  shows "is_error (fst (play_step arr 1 inp)) \<and> snd (play_step arr 1 inp) = arr"
proof (cases inp)
  case None
  then show ?thesis by (simp add: play_step_def is_error_def)
next
  case (Some cmd)
  obtain i j val where cmd: "cmd = (i, j, val)" by (cases cmd)
  with Some assms(2) have nq: "\<not> (i = 0 \<and> j = 0 \<and> val = 0)" by simp
  consider (range) "(i < 1 \<or> i > 1) \<or> (j < 1 \<or> j > 1) \<or> (val < 0 \<or> val > 1)"
    | (clear) "i = 1 \<and> j = 1 \<and> val = 0" | (ins) "i = 1 \<and> j = 1 \<and> val = 1"
    by linarith
  then have "play_step arr 1 (Some (i, j, val)) \<in>
      {(OutOfRange, arr), (IllegalClear, arr), (IllegalInsertion, arr)}"
  proof cases
    case range
    with nq show ?thesis by (simp add: play_step_def)
  next
    case clear
    with assms(1) show ?thesis by (simp add: play_step_def)
  next
    case ins
    have "row_scan arr 1 1 1 0 False"
      unfolding row_scan_iff using assms(1) by (intro disjI2 exI [of _ 0]) simp
    then have "check_and_store arr 1 1 1 1 = (IllegalInsertion, arr)"
      by (simp add: check_and_store_def col_scan_iff)
    with ins assms(1) show ?thesis by (simp add: play_step_def)
  qed
  with Some cmd show ?thesis by (auto simp: is_error_def)
qed

lemma given_one_never_completed:
  assumes "cell arr 0 0 = - 1"
  shows "play arr 1 d canWrite cs = Some (es, g) \<Longrightarrow> GameCompleted \<notin> set es \<and> g = arr"
proof (induction cs arbitrary: d es g)
  case Nil
  then show ?case by simp
next
  case (Cons inp cs)
  show ?case
  proof (cases "inp = Some (0, 0, 0)")
    case True
    with Cons.prems show ?thesis
      by (auto simp: play_step_def displayLatinSquare_def writeLatinSquare_def split: if_splits)
  next
    case False
    obtain r where s: "play_step arr 1 inp = (r, arr)" and e: "is_error r"
      using given_one_rejects [OF assms False] by (cases "play_step arr 1 inp") auto
    from Cons.prems e s
    have "emit ((if d = 1 then displayLatinSquare arr 1 @ [Instructions] else []) @ [Says r])
               (play arr 1 0 canWrite cs) = Some (es, g)"
      by (cases r) (simp_all add: is_error_def)
    then obtain es' where p: "play arr 1 0 canWrite cs = Some (es', g)"
      and es: "es = (if d = 1 then displayLatinSquare arr 1 @ [Instructions] else []) @ [Says r] @ es'"
      by (auto simp: emit_def)
    from Cons.IH [OF p] es show ?thesis
      by (auto simp: displayLatinSquare_def)
  qed
qed

text \<open>
  Claim C7 says that on the side 1 grid whose only cell is the given 1 the game detects the
  win and ends without a command. The file with side 1 and cell \<open>-1\<close> is loaded and satisfies
  the winning condition, but \<^verbatim>\<open>play\<close> waits for a command: with no command the run
  does not return, and with the commands \<^verbatim>\<open>1,1=1\<close> and \<^verbatim>\<open>0,0=0\<close> it ends by the quit
  command, without "Game completed!!!".
\<close>

theorem full_given_grid_not_detected:
  "readLatinSquare (Some [1, - 1]) zeroed = (1, store zeroed 0 0 (- 1)) \<and>
   isGameWon (store zeroed 0 0 (- 1)) 1 \<and>
   main (Some (Some [1, - 1])) True [] = None \<and>
   main (Some (Some [1, - 1])) True [Some (1, 1, 1), Some (0, 0, 0)] =
     Some (0, [Display [[- 1]], Instructions, Says IllegalInsertion, FileWritten [1, - 1]])"
  by code_simp

text \<open>
  Claim C7, amended. A side 1 grid whose only cell is the given 1 (the cell holds \<open>-1\<close>)
  satisfies the winning condition, but \<^verbatim>\<open>play\<close> evaluates that condition only after it
  stored a value: the call does not return before it has read a command, every command other
  than \<^verbatim>\<open>0,0=0\<close> is rejected with an error and leaves the array unchanged, no run ever
  prints "Game completed!!!", and the command \<^verbatim>\<open>0,0=0\<close> saves the array and ends the game.
\<close>

theorem full_given_grid_ends_by_quit_only:
  assumes "cell arr 0 0 = - 1"
  shows "isGameWon arr 1 \<and>
         play arr 1 d canWrite [] = None \<and>
         (\<forall>inp. inp \<noteq> Some (0, 0, 0) \<longrightarrow>
            is_error (fst (play_step arr 1 inp)) \<and> snd (play_step arr 1 inp) = arr) \<and>
         (\<forall>cs es g. play arr 1 d canWrite cs = Some (es, g) \<longrightarrow> GameCompleted \<notin> set es \<and> g = arr) \<and>
         play arr 1 d canWrite (Some (0, 0, 0) # rest) =
           Some ((if d = 1 then displayLatinSquare arr 1 @ [Instructions] else [])
                   @ writeLatinSquare arr 1 canWrite, arr)"
proof -
  have "isGameWon arr 1"
    unfolding isGameWon_iff
  proof (intro allI impI)
    fix r c :: int
    assume "0 \<le> r \<and> r < 1 \<and> 0 \<le> c \<and> c < 1"
    then have "r = 0" "c = 0" by simp_all
    with assms show "cell arr r c \<noteq> 0" by simp
  qed
  moreover have "play arr 1 d canWrite (Some (0, 0, 0) # rest) =
           Some ((if d = 1 then displayLatinSquare arr 1 @ [Instructions] else [])
                   @ writeLatinSquare arr 1 canWrite, arr)"
    by (simp add: play_step_def)
  moreover have "play arr 1 d canWrite [] = None" by simp
  moreover have "\<forall>inp. inp \<noteq> Some (0, 0, 0) \<longrightarrow>
            is_error (fst (play_step arr 1 inp)) \<and> snd (play_step arr 1 inp) = arr"
    using given_one_rejects [OF assms] by blast
  moreover have "\<forall>cs es g. play arr 1 d canWrite cs = Some (es, g) \<longrightarrow>
            GameCompleted \<notin> set es \<and> g = arr"
    using given_one_never_completed [OF assms] by blast
  ultimately show ?thesis by (intro conjI)
qed

theorem full_given_grid_ends_by_quit_only_witness:
  "cell (store zeroed 0 0 (- 1)) 0 0 = - 1 \<and> isGameWon (store zeroed 0 0 (- 1)) 1 \<and>
   play (store zeroed 0 0 (- 1)) 1 1 True [] = None \<and>
   is_error (fst (play_step (store zeroed 0 0 (- 1)) 1 (Some (1, 1, 1))))"
proof -
  have c: "cell (store zeroed 0 0 (- 1)) 0 0 = - 1" by (simp add: eval_defs)
  from full_given_grid_ends_by_quit_only [OF c, of 1 True "[]"] c
  show ?thesis by (simp del: play.simps)
qed

end
